theory Spec2Isabelle
  imports Complex_Main
begin

section \<open>Imputing truncated regression targets: the notebook \<open>incubator/truncated-values.ipynb\<close>\<close>

text \<open>
  The notebook is a linear script over numpy arrays. The arrays of the script (\<open>y\<close>,
  \<open>data_trunc\<close>, \<open>data_imp\<close>) are one-dimensional arrays of finite float64 numbers;
  they are modelled as lists of reals, so rounding and overflow are outside the model.
  The results of \<open>mean\<close>, \<open>var\<close> and of the division in the score can be \<open>nan\<close> or
  infinite in numpy (it warns, it does not raise); they are values of \<open>npfloat\<close>.
  Exceptions are values of \<open>np_error\<close>, returned on the left of a sum.

  Whether the variance of a vector is zero is decided by rounding. For that question
  the scoring function is modelled a second time, in float64 arithmetic: every
  operation is the exact one followed by rounding to the nearest double, ties to even,
  with overflow to the infinities (\<open>variance_explained64\<close> below).

  The generator cell has no logic of its own: it calls scikit-learn's
  \<open>make_regression\<close> with the literal arguments 1000, 100, 10 and 1 and divides the
  target by 100. The development starts from the target \<open>y\<close> it leaves in the store.
\<close>

subsection \<open>Values, errors and the array store\<close>

datatype np_error = ValueError | IndexError | KeyError

datatype npfloat = Finite real | PosInf | NegInf | NaN

type_synonym ndarray = "real list"

text \<open>
  Arrays are mutable objects: \<open>np.put\<close> writes into its argument. The store is the list
  of all arrays allocated so far, a reference is an index into it, and every numpy
  function that returns a new array allocates at the end of the store.
\<close>

type_synonym ref = nat
type_synonym heap = "ndarray list"

definition alloc :: "heap \<Rightarrow> ndarray \<Rightarrow> ref \<times> heap" where
  "alloc h a = (length h, h @ [a])"

subsection \<open>The numpy functions the script calls\<close>

text \<open>\<open>np.clip(a, a_min=None, a_max=m)\<close>: the elementwise minimum with \<open>m\<close>, in a new array.\<close>

definition np_clip :: "heap \<Rightarrow> ref \<Rightarrow> real \<Rightarrow> ref \<times> heap" where
  "np_clip h a a_max = alloc h (map (\<lambda>v. min v a_max) (h ! a))"

text \<open>\<open>np.concatenate([a1, ..., an])\<close>: the arrays joined in a new array.\<close>

definition np_concatenate :: "heap \<Rightarrow> ref list \<Rightarrow> ref \<times> heap" where
  "np_concatenate h rs = alloc h (concat (map (\<lambda>r. h ! r) rs))"

text \<open>\<open>np.copy(a)\<close>: a new array with the contents of \<open>a\<close>.\<close>

definition np_copy :: "heap \<Rightarrow> ref \<Rightarrow> ref \<times> heap" where
  "np_copy h a = alloc h (h ! a)"

text \<open>\<open>np.where(a == v)\<close>: the indices, ascending, of the entries equal to \<open>v\<close>.\<close>

definition np_where_eq :: "ndarray \<Rightarrow> real \<Rightarrow> nat list" where
  "np_where_eq a v = filter (\<lambda>i. a ! i = v) [0..<length a]"

text \<open>\<open>a[a == v]\<close>: the entries equal to \<open>v\<close>; the script only takes its length.\<close>

definition mask_eq :: "ndarray \<Rightarrow> real \<Rightarrow> ndarray" where
  "mask_eq a v = filter (\<lambda>x. x = v) a"

text \<open>
  \<open>np.put(a, ind, v)\<close> in its default mode: for the \<open>k\<close>-th index \<open>i\<close> of \<open>ind\<close>,
  \<open>a[i] = v[k % len(v)]\<close>; an index out of range raises \<open>IndexError\<close>, and so does any
  index into an empty array; with no values nothing is written.
\<close>

fun put_loop :: "ndarray \<Rightarrow> nat list \<Rightarrow> ndarray \<Rightarrow> nat \<Rightarrow> np_error + ndarray" where
  "put_loop a [] v k = Inr a"
| "put_loop a (i # ind) v k =
     (if i < length a then put_loop (a[i := v ! (k mod length v)]) ind v (Suc k)
      else Inl IndexError)"

definition np_put :: "heap \<Rightarrow> ref \<Rightarrow> nat list \<Rightarrow> ndarray \<Rightarrow> np_error + heap" where
  "np_put h a ind v =
     (if ind \<noteq> [] \<and> h ! a = [] then Inl IndexError
      else if v = [] then Inr h
      else (case put_loop (h ! a) ind v 0 of
              Inl e \<Rightarrow> Inl e
            | Inr a' \<Rightarrow> Inr (h[a := a'])))"

subsection \<open>The truncated-normal sampler\<close>

text \<open>
  \<open>scipy.stats.truncnorm.rvs(a, b, loc, scale, size)\<close>. The shape parameters \<open>a\<close> and
  \<open>b\<close> bound the standard form of the distribution: a draw is \<open>z * scale + loc\<close> for a
  standard-normal variate \<open>z\<close> truncated to \<open>[a, b]\<close>. The random source is the
  sequence \<open>z\<close> of such variates, and \<open>sz\<close> is the argument \<open>size\<close>. The call
  raises \<open>ValueError\<close> (domain error) unless \<open>a < b\<close> and \<open>scale \<ge> 0\<close>.
\<close>

definition truncnorm_rvs ::
  "real \<Rightarrow> real \<Rightarrow> real \<Rightarrow> real \<Rightarrow> nat \<Rightarrow> (nat \<Rightarrow> real) \<Rightarrow> np_error + ndarray" where
  "truncnorm_rvs a b loc scale sz z =
     (if a < b \<and> 0 \<le> scale then Inr (map (\<lambda>k. z k * scale + loc) [0..<sz])
      else Inl ValueError)"

text \<open>The sequence \<open>z\<close> is a possible random source for shape parameters \<open>a\<close>, \<open>b\<close>.\<close>

definition standard_draws :: "real \<Rightarrow> real \<Rightarrow> nat \<Rightarrow> (nat \<Rightarrow> real) \<Rightarrow> bool" where
  "standard_draws a b sz z = list_all (\<lambda>k. a \<le> z k \<and> z k \<le> b) [0..<sz]"

subsection \<open>The cells of the imputer\<close>

text \<open>
  \<^verbatim>\<open>data_trunc = np.concatenate([np.clip(y, a_min=None, a_max=truncation_point),])\<close>
\<close>

definition data_trunc :: "heap \<Rightarrow> ref \<Rightarrow> real \<Rightarrow> ref \<times> heap" where
  "data_trunc h y truncation_point =
     (let (c, h1) = np_clip h y truncation_point
      in np_concatenate h1 [c])"

text \<open>
  \<^verbatim>\<open>imputed_values = truncnorm.rvs(a=truncation_point, b=truncation_point * 20,
      loc=impute_mu, scale=impute_sig,
      size=len(data_trunc[data_trunc == truncation_point]))\<close>
\<close>

definition imputed_values ::
  "heap \<Rightarrow> ref \<Rightarrow> real \<Rightarrow> real \<Rightarrow> real \<Rightarrow> (nat \<Rightarrow> real) \<Rightarrow> np_error + ndarray" where
  "imputed_values h dt truncation_point impute_mu impute_sig z =
     truncnorm_rvs truncation_point (truncation_point * 20) impute_mu impute_sig
       (length (mask_eq (h ! dt) truncation_point)) z"

text \<open>
  \<^verbatim>\<open>(idxs,) = np.where(data_trunc == truncation_point)
  data_imp = np.copy(data_trunc)
  np.put(data_imp, idxs, imputed_values)\<close>
\<close>

definition idxs :: "heap \<Rightarrow> ref \<Rightarrow> real \<Rightarrow> nat list" where
  "idxs h dt truncation_point = np_where_eq (h ! dt) truncation_point"

definition data_imp :: "heap \<Rightarrow> ref \<Rightarrow> real \<Rightarrow> ndarray \<Rightarrow> np_error + ref \<times> heap" where
  "data_imp h dt truncation_point vals =
     (let ix = idxs h dt truncation_point;
          (di, h1) = np_copy h dt
      in case np_put h1 di ix vals of
           Inl e \<Rightarrow> Inl e
         | Inr h2 \<Rightarrow> Inr (di, h2))"

text \<open>The imputation step: the two cells above, run one after the other.\<close>

record imputation =
  drawn :: ndarray
  imputed :: ref
  store :: heap

definition impute ::
  "heap \<Rightarrow> ref \<Rightarrow> real \<Rightarrow> real \<Rightarrow> real \<Rightarrow> (nat \<Rightarrow> real) \<Rightarrow> np_error + imputation" where
  "impute h dt truncation_point impute_mu impute_sig z =
     (case imputed_values h dt truncation_point impute_mu impute_sig z of
        Inl e \<Rightarrow> Inl e
      | Inr vals \<Rightarrow>
          (case data_imp h dt truncation_point vals of
             Inl e \<Rightarrow> Inl e
           | Inr (di, h') \<Rightarrow> Inr \<lparr>drawn = vals, imputed = di, store = h'\<rparr>))"

subsection \<open>The posterior estimate\<close>

text \<open>
  A trace maps the name of a sampled variable to its posterior samples (all chains
  joined); indexing it with a name it does not hold raises \<open>KeyError\<close>.
  \<open>ndarray.mean()\<close> is the sum over the count, and \<open>nan\<close> for no samples.
\<close>

type_synonym trace = "string \<rightharpoonup> ndarray"

definition trace_getitem :: "trace \<Rightarrow> string \<Rightarrow> np_error + ndarray" where
  "trace_getitem tr name = (case tr name of None \<Rightarrow> Inl KeyError | Some s \<Rightarrow> Inr s)"

definition np_mean :: "ndarray \<Rightarrow> npfloat" where
  "np_mean a = (if a = [] then NaN else Finite (sum_list a / real (length a)))"

text \<open>
  \<^verbatim>\<open>impute_mu = trace1["Normal_mu"].mean()
  impute_sig = trace1["Normal_sig"].mean()\<close>
\<close>

definition impute_mu :: "trace \<Rightarrow> np_error + npfloat" where
  "impute_mu trace1 =
     (case trace_getitem trace1 ''Normal_mu'' of Inl e \<Rightarrow> Inl e | Inr s \<Rightarrow> Inr (np_mean s))"

definition impute_sig :: "trace \<Rightarrow> np_error + npfloat" where
  "impute_sig trace1 =
     (case trace_getitem trace1 ''Normal_sig'' of Inl e \<Rightarrow> Inl e | Inr s \<Rightarrow> Inr (np_mean s))"

definition posterior_estimate :: "trace \<Rightarrow> np_error + npfloat \<times> npfloat" where
  "posterior_estimate trace1 =
     (case impute_mu trace1 of
        Inl e \<Rightarrow> Inl e
      | Inr m \<Rightarrow> (case impute_sig trace1 of Inl e \<Rightarrow> Inl e | Inr s \<Rightarrow> Inr (m, s)))"

text \<open>The arithmetic mean as the specification has it, over the indices of the samples.\<close>

definition spec_mean :: "real list \<Rightarrow> real" where
  "spec_mean xs = (\<Sum>i<length xs. xs ! i) / real (length xs)"

subsection \<open>The scoring function of the evaluator\<close>








subsection \<open>The scoring function in float64 arithmetic\<close>

text \<open>
  A double is \<open>F64 m e\<close>, the number \<open>m * 2 ^ e\<close>, or an infinity, or \<open>nan\<close>. The
  doubles proper have \<open>\<bar>m\<bar> < 2 ^ 53\<close> and \<open>-1074 \<le> e \<le> 971\<close>; 0.1 is
  \<open>F64 3602879701896397 (- 55)\<close>. The sign of a zero is not kept: the only zero
  the scoring function divides by is a variance, a sum of squares, which is never the
  negative zero.
\<close>

datatype f64 = F64 int int | F64_PosInf | F64_NegInf | F64_NaN

text \<open>The number of binary digits of a positive integer.\<close>

function bit_length :: "int \<Rightarrow> int" where
  "bit_length n = (if n \<le> 0 then 0 else 1 + bit_length (n div 2))"
  by pat_completeness auto
termination
  by (relation "measure nat") auto

declare bit_length.simps [simp del]

text \<open>The integer part of the binary logarithm of \<open>a / d\<close>, for positive \<open>a\<close> and \<open>d\<close>.\<close>

definition floor_log2 :: "int \<Rightarrow> int \<Rightarrow> int" where
  "floor_log2 a d =
     (let k = bit_length a - bit_length d
      in if (if 0 \<le> k then d * 2 ^ nat k \<le> a else d \<le> a * 2 ^ nat (- k)) then k else k - 1)"

text \<open>The integer nearest to \<open>N / D\<close>, the even one of two that are equally near.\<close>

definition round_half_even :: "int \<Rightarrow> int \<Rightarrow> int" where
  "round_half_even N D =
     (let q = N div D; r = N mod D
      in if 2 * r < D then q
         else if D < 2 * r then q + 1
         else if even q then q else q + 1)"

text \<open>
  Rounding the exact number \<open>(n / d) * 2 ^ e\<close> (with \<open>d > 0\<close>) to a double. The
  exponent \<open>E\<close> leaves 53 binary digits to the mantissa and is at least -1074
  (subnormal numbers); the mantissa is the exact number over \<open>2 ^ E\<close>, rounded to the
  nearest integer; a result of \<open>2 ^ 1024\<close> or more is an infinity.
\<close>

definition f64_exponent :: "int \<Rightarrow> int \<Rightarrow> int \<Rightarrow> int" where
  "f64_exponent n d e = max (floor_log2 \<bar>n\<bar> d + e - 52) (- 1074)"

definition f64_mantissa :: "int \<Rightarrow> int \<Rightarrow> int \<Rightarrow> int" where
  "f64_mantissa n d e =
     (let E = f64_exponent n d e
      in if E \<le> e then round_half_even (\<bar>n\<bar> * 2 ^ nat (e - E)) d
         else round_half_even \<bar>n\<bar> (d * 2 ^ nat (E - e)))"

definition round_f64 :: "int \<Rightarrow> int \<Rightarrow> int \<Rightarrow> f64" where
  "round_f64 n d e =
     (if n = 0 then F64 0 0
      else (let E = f64_exponent n d e;
                M = f64_mantissa n d e
            in if 971 < E \<or> (E = 971 \<and> M = 2 ^ 53)
               then (if 0 < n then F64_PosInf else F64_NegInf)
               else F64 (sgn n * M) E))"

text \<open>The four operations: the special values as IEEE 754 has them, else exact and rounded.\<close>

fun fadd :: "f64 \<Rightarrow> f64 \<Rightarrow> f64" where
  "fadd F64_NaN _ = F64_NaN"
| "fadd _ F64_NaN = F64_NaN"
| "fadd F64_PosInf F64_NegInf = F64_NaN"
| "fadd F64_NegInf F64_PosInf = F64_NaN"
| "fadd F64_PosInf _ = F64_PosInf"
| "fadd _ F64_PosInf = F64_PosInf"
| "fadd F64_NegInf _ = F64_NegInf"
| "fadd _ F64_NegInf = F64_NegInf"
| "fadd (F64 m1 e1) (F64 m2 e2) =
     (let e = min e1 e2
      in round_f64 (m1 * 2 ^ nat (e1 - e) + m2 * 2 ^ nat (e2 - e)) 1 e)"

fun fneg :: "f64 \<Rightarrow> f64" where
  "fneg (F64 m e) = F64 (- m) e"
| "fneg F64_PosInf = F64_NegInf"
| "fneg F64_NegInf = F64_PosInf"
| "fneg F64_NaN = F64_NaN"

definition fsub :: "f64 \<Rightarrow> f64 \<Rightarrow> f64" where
  "fsub a b = fadd a (fneg b)"

fun fmul :: "f64 \<Rightarrow> f64 \<Rightarrow> f64" where
  "fmul F64_NaN _ = F64_NaN"
| "fmul _ F64_NaN = F64_NaN"
| "fmul (F64 m1 e1) (F64 m2 e2) = round_f64 (m1 * m2) 1 (e1 + e2)"
| "fmul (F64 m e) F64_PosInf =
     (if m = 0 then F64_NaN else if 0 < m then F64_PosInf else F64_NegInf)"
| "fmul (F64 m e) F64_NegInf =
     (if m = 0 then F64_NaN else if 0 < m then F64_NegInf else F64_PosInf)"
| "fmul F64_PosInf (F64 m e) =
     (if m = 0 then F64_NaN else if 0 < m then F64_PosInf else F64_NegInf)"
| "fmul F64_NegInf (F64 m e) =
     (if m = 0 then F64_NaN else if 0 < m then F64_NegInf else F64_PosInf)"
| "fmul F64_PosInf F64_PosInf = F64_PosInf"
| "fmul F64_PosInf F64_NegInf = F64_NegInf"
| "fmul F64_NegInf F64_PosInf = F64_NegInf"
| "fmul F64_NegInf F64_NegInf = F64_PosInf"

fun fdiv :: "f64 \<Rightarrow> f64 \<Rightarrow> f64" where
  "fdiv F64_NaN _ = F64_NaN"
| "fdiv _ F64_NaN = F64_NaN"
| "fdiv (F64 m1 e1) (F64 m2 e2) =
     (if m2 = 0 then (if m1 = 0 then F64_NaN else if 0 < m1 then F64_PosInf else F64_NegInf)
      else round_f64 (sgn m2 * m1) \<bar>m2\<bar> (e1 - e2))"
| "fdiv (F64 m e) F64_PosInf = F64 0 0"
| "fdiv (F64 m e) F64_NegInf = F64 0 0"
| "fdiv F64_PosInf (F64 m e) = (if 0 \<le> m then F64_PosInf else F64_NegInf)"
| "fdiv F64_NegInf (F64 m e) = (if 0 \<le> m then F64_NegInf else F64_PosInf)"
| "fdiv F64_PosInf F64_PosInf = F64_NaN"
| "fdiv F64_PosInf F64_NegInf = F64_NaN"
| "fdiv F64_NegInf F64_PosInf = F64_NaN"
| "fdiv F64_NegInf F64_NegInf = F64_NaN"

text \<open>A double that is zero, positive, \<open>+inf\<close> or \<open>nan\<close>: not negative.\<close>

fun nonneg64 :: "f64 \<Rightarrow> bool" where
  "nonneg64 (F64 m e) = (0 \<le> m)"
| "nonneg64 F64_PosInf = True"
| "nonneg64 F64_NegInf = False"
| "nonneg64 F64_NaN = True"

text \<open>
  \<open>np.add.reduce\<close> on a contiguous array of doubles starts from zero and adds numpy's
  pairwise sum of the array: fewer than 8 numbers are added one after the other; up to
  128 numbers are added into 8 running sums, block by block of 8, the running sums are
  added pairwise and the numbers left over one after the other; a longer array is cut
  near its middle, at a multiple of 8, and the sums of the halves are added.
\<close>

primrec block_sums :: "f64 list \<Rightarrow> f64 list \<Rightarrow> nat \<Rightarrow> f64 list" where
  "block_sums r a 0 = r"
| "block_sums r a (Suc k) =
     block_sums (map (\<lambda>(x, y). fadd x y) (zip r (take 8 a))) (drop 8 a) k"

definition unrolled_sum :: "f64 list \<Rightarrow> f64" where
  "unrolled_sum a =
     (let k = length a div 8;
          r = block_sums (take 8 a) (drop 8 a) (k - 1);
          res = fadd (fadd (fadd (r ! 0) (r ! 1)) (fadd (r ! 2) (r ! 3)))
                     (fadd (fadd (r ! 4) (r ! 5)) (fadd (r ! 6) (r ! 7)))
      in foldl fadd res (drop (8 * k) a))"

function pairwise_sum :: "f64 list \<Rightarrow> f64" where
  "pairwise_sum a =
     (if length a < 8 then foldl fadd (F64 0 0) a
      else if length a \<le> 128 then unrolled_sum a
      else fadd (pairwise_sum (take (length a div 2 - length a div 2 mod 8) a))
                (pairwise_sum (drop (length a div 2 - length a div 2 mod 8) a)))"
  by pat_completeness auto
termination
  by (relation "measure length") auto

declare pairwise_sum.simps [simp del]

definition np_sum64 :: "f64 list \<Rightarrow> f64" where
  "np_sum64 a = fadd (F64 0 0) (pairwise_sum a)"

text \<open>
  \<open>np.var(a)\<close> as numpy computes it: the sum over the count, the deviations from that
  mean, their squares, and the sum of the squares over the count. The count is
  converted to a double.
\<close>

definition np_var64 :: "f64 list \<Rightarrow> f64" where
  "np_var64 a =
     (let rcount = round_f64 (int (length a)) 1 0;
          arrmean = fdiv (np_sum64 a) rcount;
          x = map (\<lambda>v. fsub v arrmean) a;
          x2 = map (\<lambda>d. fmul d d) x
      in fdiv (np_sum64 x2) rcount)"

definition np_subtract64 :: "f64 list \<Rightarrow> f64 list \<Rightarrow> np_error + f64 list" where
  "np_subtract64 a b =
     (if length a = length b then Inr (map (\<lambda>(x, y). fsub x y) (zip a b))
      else if length a = 1 then Inr (map (\<lambda>y. fsub (hd a) y) b)
      else if length b = 1 then Inr (map (\<lambda>x. fsub x (hd b)) a)
      else Inl ValueError)"

text \<open>The scoring function of the cell above, on doubles.\<close>

definition variance_explained64 ::
  "('x \<Rightarrow> f64 list) \<Rightarrow> 'x \<Rightarrow> f64 list \<Rightarrow> np_error + f64" where
  "variance_explained64 est X y =
     (let preds = est X
      in case np_subtract64 preds y of
           Inl e \<Rightarrow> Inl e
         | Inr d \<Rightarrow> Inr (fsub (F64 1 0) (fdiv (np_var64 d) (np_var64 y))))"

section \<open>The censoring step\<close>

lemma data_trunc_contents:
  assumes "data_trunc h y tp = (d, h')"
  shows "h' ! d = map (\<lambda>v. min v tp) (h ! y)"
    and "d = Suc (length h)"
    and "h' = h @ [map (\<lambda>v. min v tp) (h ! y), map (\<lambda>v. min v tp) (h ! y)]"
  using assms
  by (auto simp: data_trunc_def np_clip_def np_concatenate_def alloc_def nth_append)

text \<open>
  Claim C1. The censoring step replaces every entry of the target vector by the minimum
  of the entry and the boundary: the censored vector has the length of the target, each
  of its entries is \<open>min entry boundary\<close>, is at most the boundary, and is the entry
  itself where that was at or below the boundary. The step is a function of the target
  and the boundary alone: it takes no random source.
\<close>

theorem data_trunc_clips:
  assumes "data_trunc h y tp = (d, h')"
  shows "length (h' ! d) = length (h ! y) \<and>
         (\<forall>i < length (h ! y).
             (h' ! d) ! i = min ((h ! y) ! i) tp \<and>
             (h' ! d) ! i \<le> tp \<and>
             ((h ! y) ! i \<le> tp \<longrightarrow> (h' ! d) ! i = (h ! y) ! i)) \<and>
         (h ! y \<noteq> [] \<longrightarrow> Max (set (h' ! d)) \<le> tp)"
proof -
  have c: "h' ! d = map (\<lambda>v. min v tp) (h ! y)"
    using assms by (rule data_trunc_contents)
  have "\<forall>x \<in> set (h' ! d). x \<le> tp"
    by (auto simp: c)
  then have "h ! y \<noteq> [] \<longrightarrow> Max (set (h' ! d)) \<le> tp"
    by (simp add: c)
  then show ?thesis
    by (simp add: c)
qed

theorem data_trunc_clips_witness:
  "data_trunc [[1, 3, 2]] 0 2 = (2, [[1, 3, 2], [1, 2, 2], [1, 2, 2]]) \<and>
   Max (set ([[1, 3, 2], [1, 2, 2], [1, 2, 2 :: real]] ! 2)) \<le> 2"
proof -
  have e: "data_trunc [[1, 3, 2]] 0 2 = (2, [[1, 3, 2], [1, 2, 2], [1, 2, 2]])"
    by (simp add: data_trunc_def np_clip_def np_concatenate_def alloc_def)
  show ?thesis
    using data_trunc_clips [OF e] e by simp
qed

section \<open>The imputation step\<close>

subsection \<open>Writing values at indices\<close>

lemma put_loop_ok:
  assumes "\<forall>i \<in> set ind. i < length a"
  shows "\<exists>a'. put_loop a ind v k = Inr a' \<and> length a' = length a \<and>
           (\<forall>j. j \<notin> set ind \<longrightarrow> a' ! j = a ! j) \<and>
           (distinct ind \<longrightarrow> (\<forall>m < length ind. a' ! (ind ! m) = v ! ((k + m) mod length v)))"
  using assms
proof (induction ind arbitrary: a k)
  case Nil
  then show ?case by simp
next
  case (Cons i ind)
  let ?b = "a[i := v ! (k mod length v)]"
  have i: "i < length a" using Cons.prems by simp
  have "\<forall>j \<in> set ind. j < length ?b" using Cons.prems by simp
  from Cons.IH [OF this, of "Suc k"] obtain a' where
    r: "put_loop ?b ind v (Suc k) = Inr a'" and
    l: "length a' = length ?b" and
    f: "\<forall>j. j \<notin> set ind \<longrightarrow> a' ! j = ?b ! j" and
    d: "distinct ind \<longrightarrow> (\<forall>m < length ind. a' ! (ind ! m) = v ! ((Suc k + m) mod length v))"
    by blast
  have 1: "put_loop a (i # ind) v k = Inr a'" using i r by simp
  have 2: "length a' = length a" using l by simp
  have 3: "\<forall>j. j \<notin> set (i # ind) \<longrightarrow> a' ! j = a ! j" using f by simp
  have 4: "distinct (i # ind) \<longrightarrow>
             (\<forall>m < length (i # ind). a' ! ((i # ind) ! m) = v ! ((k + m) mod length v))"
  proof (intro impI allI)
    fix m assume dist: "distinct (i # ind)" and m: "m < length (i # ind)"
    show "a' ! ((i # ind) ! m) = v ! ((k + m) mod length v)"
    proof (cases m)
      case 0
      have "a' ! i = ?b ! i" using f dist by simp
      then show ?thesis using 0 i by simp
    next
      case (Suc m')
      then show ?thesis using d dist m by simp
    qed
  qed
  show ?case using 1 2 3 4 by blast
qed

subsection \<open>The selected indices\<close>

lemma length_np_where_eq: "length (np_where_eq a v) = length (mask_eq a v)"
proof -
  have "mask_eq a v = filter (\<lambda>x. x = v) (map (nth a) [0..<length a])"
    by (simp add: mask_eq_def map_nth)
  also have "\<dots> = map (nth a) (filter ((\<lambda>x. x = v) \<circ> nth a) [0..<length a])"
    by (rule filter_map)
  finally show ?thesis
    by (simp add: np_where_eq_def comp_def)
qed

lemma set_np_where_eq: "set (np_where_eq a v) = {i. i < length a \<and> a ! i = v}"
  by (auto simp: np_where_eq_def)

lemma distinct_np_where_eq: "distinct (np_where_eq a v)"
  by (simp add: np_where_eq_def)

lemma mask_eq_ge:
  "mask_eq (map (\<lambda>v. min v tp) ys) tp = filter (\<lambda>v. tp \<le> v) (map (\<lambda>v. min v tp) ys)"
  unfolding mask_eq_def by (rule filter_cong) auto

lemma length_mask_eq_clip:
  "length (mask_eq (map (\<lambda>v. min v tp) ys) tp) = length (filter (\<lambda>v. tp \<le> v) ys)"
proof -
  have "(\<lambda>x. x = tp) \<circ> (\<lambda>v. min v tp) = (\<lambda>v. tp \<le> v)"
    by (auto simp: fun_eq_iff)
  then show ?thesis
    by (simp add: mask_eq_def filter_map)
qed

subsection \<open>What a run of the imputation step returns\<close>

text \<open>
  With a positive boundary and a scale that is not negative the sampler accepts its
  arguments, and the step returns: the drawn values, a fresh array for the imputed
  vector, and a store in which every older array is as it was.
\<close>

lemma impute_ok:
  assumes tp: "0 < tp" and sig: "0 \<le> sig"
  shows "\<exists>r. impute h dt tp mu sig z = Inr r \<and>
           drawn r = map (\<lambda>k. z k * sig + mu) [0..<length (mask_eq (h ! dt) tp)] \<and>
           imputed r = length h \<and>
           length (store r) = Suc (length h) \<and>
           (\<forall>q < length h. store r ! q = h ! q) \<and>
           length (store r ! imputed r) = length (h ! dt) \<and>
           (\<forall>j. j \<notin> set (idxs h dt tp) \<longrightarrow> store r ! imputed r ! j = h ! dt ! j) \<and>
           (\<forall>m < length (idxs h dt tp).
               store r ! imputed r ! (idxs h dt tp ! m) = drawn r ! m)"
proof -
  let ?d = "h ! dt"
  let ?ix = "np_where_eq ?d tp"
  let ?vals = "map (\<lambda>k. z k * sig + mu) [0..<length (mask_eq ?d tp)]"
  let ?h1 = "h @ [?d]"
  have iv: "imputed_values h dt tp mu sig z = Inr ?vals"
    using tp sig by (simp add: imputed_values_def truncnorm_rvs_def)
  have len: "length ?vals = length ?ix"
    by (simp add: length_np_where_eq)
  have inr: "\<forall>i \<in> set ?ix. i < length ?d"
    by (simp add: set_np_where_eq)
  from put_loop_ok [OF inr, of ?vals 0] obtain a' where
    pl: "put_loop ?d ?ix ?vals 0 = Inr a'" and
    la: "length a' = length ?d" and
    fr: "\<forall>j. j \<notin> set ?ix \<longrightarrow> a' ! j = ?d ! j" and
    wr: "\<forall>m < length ?ix. a' ! (?ix ! m) = ?vals ! (m mod length ?vals)"
    using distinct_np_where_eq [of ?d tp] by auto
  show ?thesis
  proof (cases "?vals = []")
    case True
    then have ix: "?ix = []" using len by simp
    have di: "data_imp h dt tp ?vals = Inr (length h, ?h1)"
      using True ix by (simp add: data_imp_def idxs_def np_copy_def alloc_def np_put_def)
    have "impute h dt tp mu sig z = Inr \<lparr>drawn = ?vals, imputed = length h, store = ?h1\<rparr>"
      by (simp add: impute_def iv di)
    then show ?thesis
      using ix by (simp add: idxs_def nth_append)
  next
    case False
    then have ix: "?ix \<noteq> []" using len by auto
    then have ne: "?d \<noteq> []" by (auto simp: np_where_eq_def)
    have di: "data_imp h dt tp ?vals = Inr (length h, ?h1[length h := a'])"
      using False ne pl by (simp add: data_imp_def idxs_def np_copy_def alloc_def np_put_def)
    have im: "impute h dt tp mu sig z =
                Inr \<lparr>drawn = ?vals, imputed = length h, store = ?h1[length h := a']\<rparr>"
      by (simp add: impute_def iv di)
    have w2: "\<forall>m < length ?ix. a' ! (?ix ! m) = ?vals ! m"
      using wr len by simp
    show ?thesis
      using la fr w2 by (simp add: im idxs_def nth_append)
  qed
qed

text \<open>Two runs on concrete stores, used below.\<close>

lemma data_trunc_example:
  "data_trunc [[1, 3, 2]] 0 2 = (2, [[1, 3, 2], [1, 2, 2], [1, 2, 2]])"
  by (simp add: data_trunc_def np_clip_def np_concatenate_def alloc_def)

lemma impute_example:
  "impute [[1, 3, 2], [1, 2, 2], [1, 2, 2]] 2 2 0 1 (\<lambda>k. 3 + real k) =
     Inr \<lparr>drawn = [3, 4], imputed = 3,
          store = [[1, 3, 2], [1, 2, 2], [1, 2, 2], [1, 3, 4]]\<rparr>"
  by (simp add: impute_def imputed_values_def truncnorm_rvs_def mask_eq_def data_imp_def
      idxs_def np_where_eq_def np_copy_def alloc_def np_put_def upt_rec)

subsection \<open>Where the drawn values lie\<close>

text \<open>
  The sampler scales its shape parameters: the drawn values lie between
  \<open>impute_mu + truncation_point * impute_sig\<close> and
  \<open>impute_mu + 20 * truncation_point * impute_sig\<close>.
\<close>

lemma imputed_values_support:
  assumes "imputed_values h dt tp mu sig z = Inr vals"
    and "standard_draws tp (tp * 20) (length (mask_eq (h ! dt) tp)) z"
  shows "\<forall>v \<in> set vals. mu + tp * sig \<le> v \<and> v \<le> mu + tp * 20 * sig"
proof
  fix v assume v: "v \<in> set vals"
  let ?n = "length (mask_eq (h ! dt) tp)"
  have ok: "tp < tp * 20 \<and> 0 \<le> sig"
    and vals: "vals = map (\<lambda>k. z k * sig + mu) [0..<?n]"
    using assms(1) by (auto simp: imputed_values_def truncnorm_rvs_def split: if_splits)
  from v vals obtain k where k: "k < ?n" and vk: "v = z k * sig + mu"
    by auto
  have zk: "tp \<le> z k \<and> z k \<le> tp * 20"
    using assms(2) k by (simp add: standard_draws_def list_all_iff)
  have "tp * sig \<le> z k * sig" and "z k * sig \<le> tp * 20 * sig"
    using zk ok by (simp_all add: mult_right_mono)
  then show "mu + tp * sig \<le> v \<and> v \<le> mu + tp * 20 * sig"
    by (simp add: vk)
qed

text \<open>
  Claim C2 says that every drawn value lies in \<open>[boundary, 20 * boundary]\<close>, whatever
  the posterior location and scale. The script passes the boundary as the shape parameter
  \<open>a\<close> of the sampler, which counts in units of \<open>impute_sig\<close> from \<open>impute_mu\<close>.
  With boundary 2, location 0 and scale 1/2 the draws lie in \<open>[1, 20]\<close>: on the target
  \<open>[1, 3]\<close> and the standard variate 3 (which lies in \<open>[2, 40]\<close>) the censored entry
  is imputed as 3/2, below the boundary.
\<close>

theorem imputed_values_below_boundary:
  "data_trunc [[1, 3]] 0 2 = (2, [[1, 3], [1, 2], [1, 2]]) \<and>
   standard_draws 2 (2 * 20) 1 (\<lambda>k. 3) \<and>
   impute [[1, 3], [1, 2], [1, 2]] 2 2 0 (1 / 2) (\<lambda>k. 3) =
     Inr \<lparr>drawn = [3 / 2], imputed = 3, store = [[1, 3], [1, 2], [1, 2], [1, 3 / 2]]\<rparr> \<and>
   (3 / 2 :: real) < 2"
  by (simp add: data_trunc_def np_clip_def np_concatenate_def standard_draws_def
      impute_def imputed_values_def truncnorm_rvs_def mask_eq_def data_imp_def
      idxs_def np_where_eq_def np_copy_def alloc_def np_put_def upt_rec)

subsection \<open>The imputed vector is a fresh copy\<close>

text \<open>
  Claim C3. The imputation step writes into a copy of the censored vector. For a target
  \<open>y\<close> in the store and its censored vector \<open>dt\<close>, with a positive boundary and a
  positive scale (the script's boundary is 2), the step returns, and the imputed
  vector is an array other than \<open>y\<close> and \<open>dt\<close>; after the step the censored vector
  and the target hold what they held before, the imputed vector has the length of the
  censored one, and every entry of the censored vector strictly below the boundary is
  the same in the imputed vector.
\<close>

theorem imputation_writes_copy:
  assumes "y < length h" and "data_trunc h y tp = (dt, h1)" and "0 < tp" and "0 < sig"
  shows "\<exists>r. impute h1 dt tp mu sig z = Inr r \<and>
           imputed r \<noteq> dt \<and> imputed r \<noteq> y \<and>
           store r ! dt = h1 ! dt \<and>
           store r ! y = h ! y \<and>
           length (store r ! imputed r) = length (h1 ! dt) \<and>
           (\<forall>i < length (h1 ! dt).
               h1 ! dt ! i < tp \<longrightarrow> store r ! imputed r ! i = h1 ! dt ! i)"
proof -
  have dt: "dt = Suc (length h)"
    and h1: "h1 = h @ [map (\<lambda>v. min v tp) (h ! y), map (\<lambda>v. min v tp) (h ! y)]"
    using assms(2) by (rule data_trunc_contents)+
  have sig: "0 \<le> sig" using assms(4) by simp
  from impute_ok [OF assms(3) sig, of h1 dt mu z] obtain r where
    r: "impute h1 dt tp mu sig z = Inr r" and
    im: "imputed r = length h1" and
    fr: "\<forall>q < length h1. store r ! q = h1 ! q" and
    ln: "length (store r ! imputed r) = length (h1 ! dt)" and
    un: "\<forall>j. j \<notin> set (idxs h1 dt tp) \<longrightarrow> store r ! imputed r ! j = h1 ! dt ! j"
    by blast
  have l1: "length h1 = length h + 2" by (simp add: h1)
  have a: "imputed r \<noteq> dt" "imputed r \<noteq> y"
    using im l1 dt assms(1) by simp_all
  have b: "store r ! dt = h1 ! dt"
    using fr l1 dt by simp
  have "h1 ! y = h ! y"
    using assms(1) by (simp add: h1 nth_append)
  then have c: "store r ! y = h ! y"
    using fr l1 assms(1) by simp
  have d: "\<forall>i < length (h1 ! dt). h1 ! dt ! i < tp \<longrightarrow> store r ! imputed r ! i = h1 ! dt ! i"
    using un by (simp add: idxs_def set_np_where_eq)
  show ?thesis
    using r a b c ln d by blast
qed

theorem imputation_writes_copy_witness:
  "(0::nat) < length [[1, 3, 2 :: real]] \<and>
   data_trunc [[1, 3, 2]] 0 2 = (2, [[1, 3, 2], [1, 2, 2], [1, 2, 2]]) \<and>
   (0::real) < 2 \<and> (0::real) < 1 \<and>
   (\<exists>r. impute [[1, 3, 2], [1, 2, 2], [1, 2, 2]] 2 2 0 1 (\<lambda>k. 3 + real k) = Inr r \<and>
        imputed r \<noteq> 2 \<and> imputed r \<noteq> 0 \<and>
        store r ! 2 = [1, 2, 2] \<and>
        store r ! 0 = [1, 3, 2] \<and>
        length (store r ! imputed r) = 3 \<and>
        store r ! imputed r ! 0 = 1)"
proof -
  have y: "(0::nat) < length [[1, 3, 2 :: real]]" by simp
  have t: "(0::real) < 2" and s: "(0::real) < 1" by simp_all
  from imputation_writes_copy [OF y data_trunc_example t s, of 0 "\<lambda>k. 3 + real k"]
  obtain r where
    r: "impute [[1, 3, 2], [1, 2, 2], [1, 2, 2]] 2 2 0 1 (\<lambda>k. 3 + real k) = Inr r" and
    p: "imputed r \<noteq> 2" "imputed r \<noteq> 0" "store r ! 2 = [1, 2, 2]" "store r ! 0 = [1, 3, 2]"
       "length (store r ! imputed r) = 3" and
    q: "\<forall>i < 3. [1, 2, 2 :: real] ! i < 2 \<longrightarrow> store r ! imputed r ! i = [1, 2, 2] ! i"
    by auto
  have "store r ! imputed r ! 0 = 1"
    using q by simp
  then show ?thesis
    using y data_trunc_example r p by auto
qed

subsection \<open>One drawn value for each censored entry\<close>

text \<open>
  Claim C4. For the censored vector of a target, a positive boundary and a positive
  scale, the imputation step returns, and the number of values it draws is the number
  of entries of the censored vector at or above the boundary, which is the number of
  its entries equal to the boundary and the number of entries of the target at or above
  the boundary. The selected indices are distinct,
  they are the positions of those entries, and the entry at the \<open>m\<close>-th selected index
  receives the \<open>m\<close>-th drawn value.
\<close>

theorem one_draw_per_censored_entry:
  assumes "data_trunc h y tp = (dt, h1)" and "0 < tp" and "0 < sig"
  shows "\<exists>r. impute h1 dt tp mu sig z = Inr r \<and>
           length (drawn r) = length (filter (\<lambda>v. tp \<le> v) (h1 ! dt)) \<and>
           length (drawn r) = length (filter (\<lambda>v. v = tp) (h1 ! dt)) \<and>
           length (drawn r) = length (filter (\<lambda>v. tp \<le> v) (h ! y)) \<and>
           length (drawn r) = length (idxs h1 dt tp) \<and>
           distinct (idxs h1 dt tp) \<and>
           set (idxs h1 dt tp) = {i. i < length (h1 ! dt) \<and> tp \<le> h1 ! dt ! i} \<and>
           (\<forall>m < length (drawn r).
               store r ! imputed r ! (idxs h1 dt tp ! m) = drawn r ! m)"
proof -
  have c: "h1 ! dt = map (\<lambda>v. min v tp) (h ! y)"
    using assms(1) by (rule data_trunc_contents)
  have sig: "0 \<le> sig" using assms(3) by simp
  from impute_ok [OF assms(2) sig, of h1 dt mu z] obtain r where
    r: "impute h1 dt tp mu sig z = Inr r" and
    dr: "drawn r = map (\<lambda>k. z k * sig + mu) [0..<length (mask_eq (h1 ! dt) tp)]" and
    wr: "\<forall>m < length (idxs h1 dt tp).
            store r ! imputed r ! (idxs h1 dt tp ! m) = drawn r ! m"
    by blast
  have n: "length (drawn r) = length (mask_eq (h1 ! dt) tp)"
    by (simp add: dr)
  have 1: "length (drawn r) = length (filter (\<lambda>v. tp \<le> v) (h1 ! dt))"
    using n by (simp add: c mask_eq_ge)
  have 2: "length (drawn r) = length (filter (\<lambda>v. v = tp) (h1 ! dt))"
    using n by (simp add: mask_eq_def)
  have 3: "length (drawn r) = length (filter (\<lambda>v. tp \<le> v) (h ! y))"
    using n by (simp add: c length_mask_eq_clip)
  have 4: "length (drawn r) = length (idxs h1 dt tp)"
    using n by (simp add: idxs_def length_np_where_eq)
  have 5: "distinct (idxs h1 dt tp)"
    by (simp add: idxs_def distinct_np_where_eq)
  have 6: "set (idxs h1 dt tp) = {i. i < length (h1 ! dt) \<and> tp \<le> h1 ! dt ! i}"
    by (auto simp: idxs_def set_np_where_eq c)
  have 7: "\<forall>m < length (drawn r). store r ! imputed r ! (idxs h1 dt tp ! m) = drawn r ! m"
    using wr 4 by simp
  show ?thesis
    using r 1 2 3 4 5 6 7 by blast
qed

theorem one_draw_per_censored_entry_witness:
  "data_trunc [[1, 3, 2]] 0 2 = (2, [[1, 3, 2], [1, 2, 2], [1, 2, 2]]) \<and>
   (0::real) < 2 \<and> (0::real) < 1 \<and>
   (\<exists>r. impute [[1, 3, 2], [1, 2, 2], [1, 2, 2]] 2 2 0 1 (\<lambda>k. 3 + real k) = Inr r \<and>
        length (drawn r) = 2 \<and> drawn r = [3, 4] \<and>
        store r ! imputed r = [1, 3, 4])"
proof -
  have t: "(0::real) < 2" and s: "(0::real) < 1" by simp_all
  from one_draw_per_censored_entry [OF data_trunc_example t s, of 0 "\<lambda>k. 3 + real k"]
  obtain r where
    r: "impute [[1, 3, 2], [1, 2, 2], [1, 2, 2]] 2 2 0 1 (\<lambda>k. 3 + real k) = Inr r" and
    n: "length (drawn r) = length (filter (\<lambda>v. (2::real) \<le> v) ([[1, 3, 2]] ! 0))"
    by blast
  have "length (drawn r) = 2"
    using n by simp
  then show ?thesis
    using data_trunc_example r impute_example by auto
qed

subsection \<open>Nothing to impute\<close>

text \<open>
  Claim C5. If no entry of the censored vector equals the boundary (a positive boundary,
  a positive scale), the imputation step returns, draws no value, and the imputed
  vector equals the censored vector, which is itself unchanged.
\<close>

theorem nothing_to_impute:
  assumes "dt < length h" and "tp \<notin> set (h ! dt)" and "0 < tp" and "0 < sig"
  shows "\<exists>r. impute h dt tp mu sig z = Inr r \<and>
           drawn r = [] \<and>
           store r ! imputed r = h ! dt \<and>
           store r ! dt = h ! dt"
proof -
  have sig: "0 \<le> sig" using assms(4) by simp
  from impute_ok [OF assms(3) sig, of h dt mu z] obtain r where
    r: "impute h dt tp mu sig z = Inr r" and
    dr: "drawn r = map (\<lambda>k. z k * sig + mu) [0..<length (mask_eq (h ! dt) tp)]" and
    fr: "\<forall>q < length h. store r ! q = h ! q" and
    ln: "length (store r ! imputed r) = length (h ! dt)" and
    un: "\<forall>j. j \<notin> set (idxs h dt tp) \<longrightarrow> store r ! imputed r ! j = h ! dt ! j"
    by blast
  have m: "mask_eq (h ! dt) tp = []"
    using assms(2) by (auto simp: mask_eq_def filter_empty_conv)
  have ix: "idxs h dt tp = []"
    using assms(2) by (auto simp: idxs_def np_where_eq_def filter_empty_conv)
  have 1: "drawn r = []"
    by (simp add: dr m)
  have 2: "store r ! imputed r = h ! dt"
    using ln un by (simp add: ix nth_equalityI)
  have 3: "store r ! dt = h ! dt"
    using fr assms(1) by simp
  show ?thesis
    using r 1 2 3 by blast
qed

theorem nothing_to_impute_witness:
  "(0::nat) < length [[1, 3 / 2 :: real]] \<and>
   (2::real) \<notin> set ([[1, 3 / 2]] ! 0) \<and>
   (0::real) < 2 \<and> (0::real) < 1 \<and>
   (\<exists>r. impute [[1, 3 / 2]] 0 2 0 1 (\<lambda>k. 3) = Inr r \<and>
        drawn r = [] \<and>
        store r ! imputed r = [1, 3 / 2] \<and>
        store r ! 0 = [1, 3 / 2])"
proof -
  have d: "(0::nat) < length [[1, 3 / 2 :: real]]" by simp
  have n: "(2::real) \<notin> set ([[1, 3 / 2]] ! 0)" by simp
  have t: "(0::real) < 2" and s: "(0::real) < 1" by simp_all
  show ?thesis
    using d n nothing_to_impute [OF d n t s, of 0 "\<lambda>k. 3"] by simp
qed

subsection \<open>Censored means equal to the boundary\<close>

text \<open>
  Claim C9. The imputer selects an entry exactly when it equals the boundary. For every
  array of the store the selected indices are the positions of the entries equal to the
  boundary; so for the censored vector of a target, an entry of the target that measured
  the boundary value itself is selected, and no entry strictly below the boundary is.
\<close>

theorem censored_by_equality:
  "set (idxs h d tp) = {i. i < length (h ! d) \<and> h ! d ! i = tp} \<and>
   (data_trunc h y tp = (dt, h1) \<longrightarrow>
      (\<forall>i < length (h ! y).
          (h ! y ! i = tp \<longrightarrow> i \<in> set (idxs h1 dt tp)) \<and>
          (h ! y ! i < tp \<longrightarrow> i \<notin> set (idxs h1 dt tp))))"
proof -
  have 1: "set (idxs h d tp) = {i. i < length (h ! d) \<and> h ! d ! i = tp}"
    by (simp add: idxs_def set_np_where_eq)
  have 2: "\<forall>i < length (h ! y).
          (h ! y ! i = tp \<longrightarrow> i \<in> set (idxs h1 dt tp)) \<and>
          (h ! y ! i < tp \<longrightarrow> i \<notin> set (idxs h1 dt tp))"
    if "data_trunc h y tp = (dt, h1)"
  proof -
    have c: "h1 ! dt = map (\<lambda>v. min v tp) (h ! y)"
      using that by (rule data_trunc_contents)
    show ?thesis
      by (auto simp: idxs_def set_np_where_eq c)
  qed
  show ?thesis using 1 2 by blast
qed

theorem censored_by_equality_witness:
  "data_trunc [[1, 3, 2]] 0 2 = (2, [[1, 3, 2], [1, 2, 2], [1, 2, 2]]) \<and>
   [[1, 3, 2 :: real]] ! 0 ! 2 = 2 \<and>
   2 \<in> set (idxs [[1, 3, 2], [1, 2, 2], [1, 2, 2]] 2 2) \<and>
   [[1, 3, 2 :: real]] ! 0 ! 0 < 2 \<and>
   0 \<notin> set (idxs [[1, 3, 2], [1, 2, 2], [1, 2, 2]] 2 2)"
proof -
  let ?h = "[[1, 3, 2 :: real]]"
  let ?h1 = "[[1, 3, 2], [1, 2, 2], [1, 2, 2 :: real]]"
  have "\<forall>i < length (?h ! 0).
          (?h ! 0 ! i = 2 \<longrightarrow> i \<in> set (idxs ?h1 2 2)) \<and>
          (?h ! 0 ! i < 2 \<longrightarrow> i \<notin> set (idxs ?h1 2 2))"
    using censored_by_equality [of ?h 0 2 0 2 ?h1] data_trunc_example by blast
  then have "(?h ! 0 ! 2 = 2 \<longrightarrow> 2 \<in> set (idxs ?h1 2 2)) \<and>
             (?h ! 0 ! 0 < 2 \<longrightarrow> 0 \<notin> set (idxs ?h1 2 2))"
    by simp
  then show ?thesis
    using data_trunc_example by simp
qed

section \<open>The posterior estimate\<close>

lemma sum_list_nth: "sum_list (map f xs) = (\<Sum>i<length xs. f (xs ! i))"
proof -
  have "sum_list (map f xs) = (\<Sum>i = 0..<length (map f xs). map f xs ! i)"
    by (rule sum_list_sum_nth)
  also have "\<dots> = (\<Sum>i<length xs. f (xs ! i))"
    by (simp add: atLeast0LessThan)
  finally show ?thesis .
qed

lemma mean_spec_mean: "sum_list a / real (length a) = spec_mean a"
  using sum_list_nth [of "\<lambda>x. x" a] by (simp add: spec_mean_def)

lemma np_mean_spec: "a \<noteq> [] \<Longrightarrow> np_mean a = Finite (spec_mean a)"
  by (simp add: np_mean_def mean_spec_mean)

lemma spec_mean_example: "spec_mean [1, 3] = 2" "spec_mean [2, 4] = 3"
  using np_mean_spec [of "[1, 3]"] np_mean_spec [of "[2, 4]"] by (simp_all add: np_mean_def)

text \<open>
  Claim C7. The posterior estimate is the pair of the arithmetic means of the posterior
  samples: for a trace that holds samples of the location \<open>Normal_mu\<close> and of the scale
  \<open>Normal_sig\<close> of the selected model, \<open>impute_mu\<close> is the mean of the first and
  \<open>impute_sig\<close> the mean of the second. They are the \<open>loc\<close> and \<open>scale\<close> that
  \<open>imputed_values\<close> hands to the sampler.
\<close>

theorem posterior_estimate_is_mean:
  assumes "trace1 ''Normal_mu'' = Some mus" and "mus \<noteq> []"
    and "trace1 ''Normal_sig'' = Some sigs" and "sigs \<noteq> []"
  shows "impute_mu trace1 = Inr (Finite (spec_mean mus)) \<and>
         impute_sig trace1 = Inr (Finite (spec_mean sigs)) \<and>
         posterior_estimate trace1 = Inr (Finite (spec_mean mus), Finite (spec_mean sigs))"
proof -
  have m: "impute_mu trace1 = Inr (Finite (spec_mean mus))"
    using assms(1,2) by (simp add: impute_mu_def trace_getitem_def np_mean_spec)
  have s: "impute_sig trace1 = Inr (Finite (spec_mean sigs))"
    using assms(3,4) by (simp add: impute_sig_def trace_getitem_def np_mean_spec)
  show ?thesis
    by (simp add: posterior_estimate_def m s)
qed

theorem posterior_estimate_is_mean_witness:
  "[''Normal_mu'' \<mapsto> [1, 3], ''Normal_sig'' \<mapsto> [2, 4]] ''Normal_mu'' = Some [1, 3 :: real] \<and>
   [1, 3 :: real] \<noteq> [] \<and>
   [''Normal_mu'' \<mapsto> [1, 3], ''Normal_sig'' \<mapsto> [2, 4]] ''Normal_sig'' = Some [2, 4 :: real] \<and>
   [2, 4 :: real] \<noteq> [] \<and>
   posterior_estimate [''Normal_mu'' \<mapsto> [1, 3], ''Normal_sig'' \<mapsto> [2, 4]] =
     Inr (Finite 2, Finite 3)"
proof -
  let ?tr = "[''Normal_mu'' \<mapsto> [1, 3 :: real], ''Normal_sig'' \<mapsto> [2, 4]]"
  have a: "?tr ''Normal_mu'' = Some [1, 3]" by simp
  have b: "[1, 3 :: real] \<noteq> []" by simp
  have c: "?tr ''Normal_sig'' = Some [2, 4]" by simp
  have d: "[2, 4 :: real] \<noteq> []" by simp
  have "posterior_estimate ?tr = Inr (Finite (spec_mean [1, 3]), Finite (spec_mean [2, 4]))"
    using posterior_estimate_is_mean [OF a b c d] by blast
  then have e: "posterior_estimate ?tr = Inr (Finite 2, Finite 3)"
    by (simp only: spec_mean_example)
  show ?thesis
    by (intro conjI a b c d e)
qed

section \<open>The scoring function\<close>








section \<open>The scoring function in float64 arithmetic\<close>

subsection \<open>Rounding at work\<close>

text \<open>
  The model on sums, quotients and products whose doubles are well known: 0.1 + 0.2 is
  0.30000000000000004, 1 / 10 is the double 0.1, 1 / 3 rounds down; \<open>2 ^ 53 + 1\<close> and half
  of the least subnormal number are ties and go to the even neighbour; the largest
  double plus half a unit in its last place overflows, and so does \<open>2 ^ 600\<close> squared.
\<close>

lemma f64_examples:
  "fadd (F64 3602879701896397 (- 55)) (F64 3602879701896397 (- 54)) = F64 5404319552844596 (- 54)"
  "fdiv (F64 1 0) (F64 10 0) = F64 7205759403792794 (- 56)"
  "fdiv (F64 1 0) (F64 3 0) = F64 6004799503160661 (- 54)"
  "fadd (F64 9007199254740992 0) (F64 1 0) = F64 4503599627370496 1"
  "fdiv (F64 1 (- 1074)) (F64 2 0) = F64 0 (- 1074)"
  "fdiv (F64 3 (- 1074)) (F64 2 0) = F64 2 (- 1074)"
  "fadd (F64 9007199254740991 971) (F64 1 970) = F64_PosInf"
  "fadd (F64 9007199254740991 971) (F64 1 969) = F64 9007199254740991 971"
  "fmul (F64 1 600) (F64 1 600) = F64_PosInf"
  by code_simp+

subsection \<open>A variance is never negative\<close>

lemma round_half_even_nonneg: "0 \<le> N \<Longrightarrow> 0 < D \<Longrightarrow> 0 \<le> round_half_even N D"
  by (simp add: round_half_even_def Let_def pos_imp_zdiv_nonneg_iff)

lemma f64_mantissa_nonneg: "0 < d \<Longrightarrow> 0 \<le> f64_mantissa n d e"
  by (simp add: f64_mantissa_def Let_def round_half_even_nonneg)

lemma round_f64_nonneg:
  assumes "0 \<le> n" and "0 < d"
  shows "nonneg64 (round_f64 n d e)"
  using assms by (simp add: round_f64_def Let_def f64_mantissa_nonneg)

lemma round_f64_not_nan: "round_f64 n d e \<noteq> F64_NaN"
  by (simp add: round_f64_def Let_def)

lemma fadd_nonneg: "nonneg64 a \<Longrightarrow> nonneg64 b \<Longrightarrow> nonneg64 (fadd a b)"
proof (cases a; cases b)
  fix m1 e1 m2 e2
  assume "nonneg64 a" "nonneg64 b" "a = F64 m1 e1" "b = F64 m2 e2"
  then have "0 \<le> m1 * 2 ^ nat (e1 - min e1 e2) + m2 * 2 ^ nat (e2 - min e1 e2)"
    by simp
  then show "nonneg64 (fadd a b)"
    using \<open>a = F64 m1 e1\<close> \<open>b = F64 m2 e2\<close> by (simp add: Let_def round_f64_nonneg)
qed simp_all

lemma foldl_fadd_nonneg:
  "nonneg64 s \<Longrightarrow> list_all nonneg64 a \<Longrightarrow> nonneg64 (foldl fadd s a)"
  by (induction a arbitrary: s) (simp_all add: fadd_nonneg)

lemma block_sums_nonneg:
  "length r = 8 \<Longrightarrow> 8 * k \<le> length a \<Longrightarrow> list_all nonneg64 r \<Longrightarrow> list_all nonneg64 a \<Longrightarrow>
     length (block_sums r a k) = 8 \<and> list_all nonneg64 (block_sums r a k)"
proof (induction k arbitrary: r a)
  case 0
  then show ?case by simp
next
  case (Suc k)
  let ?r = "map (\<lambda>(x, y). fadd x y) (zip r (take 8 a))"
  have 1: "length ?r = 8" using Suc.prems by simp
  have 2: "8 * k \<le> length (drop 8 a)" using Suc.prems by simp
  have 3: "list_all nonneg64 ?r"
    using Suc.prems(3,4)
    by (auto simp: list_all_iff fadd_nonneg dest!: set_zip_leftD set_zip_rightD in_set_takeD
        elim!: in_set_zipE)
  have 4: "list_all nonneg64 (drop 8 a)"
    using Suc.prems(4) by (auto simp: list_all_iff dest: in_set_dropD)
  show ?case
    using Suc.IH [OF 1 2 3 4] by simp
qed

lemma unrolled_sum_nonneg:
  assumes "8 \<le> length a" and "list_all nonneg64 a"
  shows "nonneg64 (unrolled_sum a)"
proof -
  let ?k = "length a div 8"
  let ?r = "block_sums (take 8 a) (drop 8 a) (?k - 1)"
  have "length (take 8 a) = 8" using assms(1) by simp
  moreover have "8 * (?k - 1) \<le> length (drop 8 a)" by simp
  moreover have "list_all nonneg64 (take 8 a)" "list_all nonneg64 (drop 8 a)"
    using assms(2) by (auto simp: list_all_iff dest: in_set_takeD in_set_dropD)
  ultimately have r: "length ?r = 8 \<and> list_all nonneg64 ?r"
    by (rule block_sums_nonneg)
  then have "\<forall>j < 8. nonneg64 (?r ! j)"
    by (simp add: list_all_length)
  then have "nonneg64 (fadd (fadd (fadd (?r ! 0) (?r ! 1)) (fadd (?r ! 2) (?r ! 3)))
                           (fadd (fadd (?r ! 4) (?r ! 5)) (fadd (?r ! 6) (?r ! 7))))"
    by (simp add: fadd_nonneg)
  moreover have "list_all nonneg64 (drop (8 * ?k) a)"
    using assms(2) by (auto simp: list_all_iff dest: in_set_dropD)
  ultimately show ?thesis
    unfolding unrolled_sum_def Let_def by (rule foldl_fadd_nonneg)
qed

lemma pairwise_sum_nonneg: "list_all nonneg64 a \<Longrightarrow> nonneg64 (pairwise_sum a)"
proof (induction a rule: pairwise_sum.induct)
  case (1 a)
  let ?n2 = "length a div 2 - length a div 2 mod 8"
  show ?case
  proof (cases "length a < 8")
    case True
    then show ?thesis
      using "1.prems" by (subst pairwise_sum.simps) (simp add: foldl_fadd_nonneg)
  next
    case False
    show ?thesis
    proof (cases "length a \<le> 128")
      case True
      then show ?thesis
        using False "1.prems" by (subst pairwise_sum.simps) (simp add: unrolled_sum_nonneg)
    next
      case big: False
      have t: "list_all nonneg64 (take ?n2 a)" and d: "list_all nonneg64 (drop ?n2 a)"
        using "1.prems" by (auto simp: list_all_iff dest: in_set_takeD in_set_dropD)
      have "nonneg64 (pairwise_sum (take ?n2 a))" "nonneg64 (pairwise_sum (drop ?n2 a))"
        using "1.IH" False big t d by simp_all
      then show ?thesis
        using False big by (subst pairwise_sum.simps) (simp add: fadd_nonneg)
    qed
  qed
qed

lemma np_sum64_nonneg: "list_all nonneg64 a \<Longrightarrow> nonneg64 (np_sum64 a)"
  by (simp add: np_sum64_def fadd_nonneg pairwise_sum_nonneg)

lemma fmul_self_nonneg: "nonneg64 (fmul d d)"
  by (cases d) (simp_all add: round_f64_nonneg)

lemma fdiv_nonneg: "nonneg64 a \<Longrightarrow> nonneg64 b \<Longrightarrow> nonneg64 (fdiv a b)"
proof (cases a; cases b)
  fix m1 e1 m2 e2
  assume a: "nonneg64 a" "nonneg64 b" "a = F64 m1 e1" "b = F64 m2 e2"
  show "nonneg64 (fdiv a b)"
  proof (cases "m2 = 0")
    case True
    then show ?thesis using a by simp
  next
    case False
    then have "0 < m2" using a by simp
    then have "nonneg64 (round_f64 (sgn m2 * m1) \<bar>m2\<bar> (e1 - e2))"
      using a by (intro round_f64_nonneg) simp_all
    then show ?thesis using a False by simp
  qed
qed simp_all

lemma np_var64_nonneg: "nonneg64 (np_var64 a)"
proof -
  show ?thesis
    unfolding np_var64_def Let_def
    by (intro fdiv_nonneg np_sum64_nonneg round_f64_nonneg)
       (simp_all add: list_all_iff fmul_self_nonneg)
qed

lemma bit_length_le: "n < 2 ^ k \<Longrightarrow> bit_length n \<le> int k"
proof (induction k arbitrary: n)
  case 0
  then show ?case by (subst bit_length.simps) simp
next
  case (Suc k)
  have "n div 2 < 2 ^ k" using Suc.prems by simp
  then have "bit_length (n div 2) \<le> int k" by (rule Suc.IH)
  then show ?case by (subst bit_length.simps) simp
qed

lemma bit_length_1: "bit_length 1 = 1"
  by (subst bit_length.simps, subst bit_length.simps) simp

lemma floor_log2_le: "floor_log2 a d \<le> bit_length a - bit_length d"
  by (simp add: floor_log2_def Let_def)

lemma round_f64_le_one:
  assumes "e \<le> 0" and "n \<le> 2 ^ nat (- e)"
  shows "round_f64 n 1 e \<noteq> F64_PosInf"
proof (cases "0 < n")
  case False
  then show ?thesis by (simp add: round_f64_def Let_def)
next
  case True
  have p: "(0::int) < 2 ^ nat (- e)" by simp
  have "n < 2 * 2 ^ nat (- e)" using assms(2) p by linarith
  then have "n < 2 ^ Suc (nat (- e))" by simp
  then have "bit_length n \<le> int (Suc (nat (- e)))" by (rule bit_length_le)
  then have "bit_length \<bar>n\<bar> \<le> 1 - e" using True assms(1) by simp
  then have "floor_log2 \<bar>n\<bar> 1 + e - 52 \<le> - 52"
    using floor_log2_le [of "\<bar>n\<bar>" 1] by (simp add: bit_length_1)
  then have "f64_exponent n 1 e \<le> - 52" by (simp add: f64_exponent_def)
  then show ?thesis
    using True by (auto simp: round_f64_def Let_def)
qed

lemma fsub_one_special:
  "fsub (F64 1 0) F64_PosInf = F64_NegInf" "fsub (F64 1 0) F64_NaN = F64_NaN"
  by (simp_all add: fsub_def)

lemma fsub_one_finite:
  assumes "0 \<le> mq"
  shows "\<exists>ms es. fsub (F64 1 0) (F64 mq eq) = F64 ms es \<or> fsub (F64 1 0) (F64 mq eq) = F64_NegInf"
proof -
  let ?e = "min 0 eq"
  let ?n = "1 * 2 ^ nat (0 - ?e) + (- mq) * 2 ^ nat (eq - ?e)"
  have r: "fsub (F64 1 0) (F64 mq eq) = round_f64 ?n 1 ?e"
    by (simp add: fsub_def Let_def)
  have "?n \<le> 2 ^ nat (- ?e)" using assms by simp
  then have "round_f64 ?n 1 ?e \<noteq> F64_PosInf"
    by (intro round_f64_le_one) simp_all
  then show ?thesis
    unfolding r using round_f64_not_nan [of ?n 1 ?e] by (cases "round_f64 ?n 1 ?e") auto
qed

subsection \<open>Rounding is to the nearest double\<close>

text \<open>
  What \<open>round_f64\<close> returns for the exact number \<open>(n / d) * 2 ^ e\<close>, when it is not
  an infinity: a multiple \<open>M * 2 ^ E\<close> of a power of two that is at most half of
  \<open>2 ^ E\<close> away from the exact number (\<open>round_f64_nearest\<close>), with an exponent from
  -1074 to 971 and a mantissa of 53 binary digits, or less at the exponent -1074
  (\<open>round_f64_range\<close>).
\<close>

lemma round_half_even_nearest:
  assumes "0 < D"
  shows "\<bar>2 * (round_half_even N D * D - N)\<bar> \<le> D"
proof -
  define q where "q = N div D"
  define r where "r = N mod D"
  have N: "N = q * D + r" by (simp add: q_def r_def)
  have r: "0 \<le> r" "r < D" using assms by (simp_all add: r_def)
  have "round_half_even N D = (if 2 * r < D then q else if D < 2 * r then q + 1
          else if even q then q else q + 1)"
    by (simp add: round_half_even_def Let_def q_def r_def)
  then show ?thesis
    using r by (auto simp: N algebra_simps)
qed

lemma bit_length_bounds:
  "0 < n \<Longrightarrow> 0 < bit_length n \<and> 2 ^ nat (bit_length n - 1) \<le> n \<and> n < 2 ^ nat (bit_length n)"
proof (induction n rule: bit_length.induct)
  case (1 n)
  show ?case
  proof (cases "n = 1")
    case True
    then show ?thesis by (simp add: bit_length_1)
  next
    case False
    then have h: "0 < n div 2" using "1.prems" by simp
    have ih: "0 < bit_length (n div 2) \<and> 2 ^ nat (bit_length (n div 2) - 1) \<le> n div 2 \<and>
              n div 2 < 2 ^ nat (bit_length (n div 2))"
      using "1.IH" "1.prems" h by simp
    have b: "bit_length n = 1 + bit_length (n div 2)"
      using "1.prems" by (subst bit_length.simps) simp
    have e: "nat (bit_length n - 1) = Suc (nat (bit_length (n div 2) - 1))"
            "nat (bit_length n) = Suc (nat (bit_length (n div 2)))"
      using ih b by arith+
    have "2 * 2 ^ nat (bit_length (n div 2) - 1) \<le> n" "n < 2 * 2 ^ nat (bit_length (n div 2))"
      using ih by linarith+
    then show ?thesis
      using ih b unfolding e by simp
  qed
qed

lemma powr_int_nat: "0 \<le> k \<Longrightarrow> (2::real) powr (real_of_int k) = 2 ^ nat k"
  by (simp add: powr_realpow [symmetric])

lemma bit_length_real:
  assumes "0 < n"
  shows "2 powr (real_of_int (bit_length n) - 1) \<le> real_of_int n"
    and "real_of_int n < 2 powr real_of_int (bit_length n)"
proof -
  from bit_length_bounds [OF assms] have
    p: "0 < bit_length n" and lo: "2 ^ nat (bit_length n - 1) \<le> n" and hi: "n < 2 ^ nat (bit_length n)"
    by simp_all
  have "2 powr (real_of_int (bit_length n - 1)) = 2 ^ nat (bit_length n - 1)"
    using p by (intro powr_int_nat) simp
  moreover have "real_of_int (2 ^ nat (bit_length n - 1)) \<le> real_of_int n"
    using lo by (rule of_int_le_iff [THEN iffD2])
  ultimately show "2 powr (real_of_int (bit_length n) - 1) \<le> real_of_int n"
    by simp
  have "2 powr (real_of_int (bit_length n)) = 2 ^ nat (bit_length n)"
    using p by (intro powr_int_nat) simp
  moreover have "real_of_int n < real_of_int (2 ^ nat (bit_length n))"
    using hi by (rule of_int_less_iff [THEN iffD2])
  ultimately show "real_of_int n < 2 powr real_of_int (bit_length n)"
    by simp
qed

lemma floor_log2_correct:
  assumes "0 < a" and "0 < d"
  shows "2 powr real_of_int (floor_log2 a d) \<le> real_of_int a / real_of_int d"
    and "real_of_int a / real_of_int d < 2 powr (real_of_int (floor_log2 a d) + 1)"
proof -
  define k where "k = bit_length a - bit_length d"
  define x where "x = real_of_int a / real_of_int d"
  have d: "0 < real_of_int d" and a: "0 < real_of_int a" using assms by simp_all
  have test: "(if 0 \<le> k then d * 2 ^ nat k \<le> a else d \<le> a * 2 ^ nat (- k)) \<longleftrightarrow> 2 powr real_of_int k \<le> x"
  proof (cases "0 \<le> k")
    case True
    have "d * 2 ^ nat k \<le> a \<longleftrightarrow> real_of_int (d * 2 ^ nat k) \<le> real_of_int a"
      by (simp only: of_int_le_iff)
    also have "\<dots> \<longleftrightarrow> real_of_int d * 2 powr real_of_int k \<le> real_of_int a"
      using True by (simp add: powr_int_nat)
    also have "\<dots> \<longleftrightarrow> 2 powr real_of_int k \<le> x"
      using d by (simp add: x_def pos_le_divide_eq mult.commute)
    finally show ?thesis using True by simp
  next
    case False
    then have nk: "0 \<le> - k" by simp
    have "d \<le> a * 2 ^ nat (- k) \<longleftrightarrow> real_of_int d \<le> real_of_int (a * 2 ^ nat (- k))"
      by (simp only: of_int_le_iff)
    also have "\<dots> \<longleftrightarrow> real_of_int d \<le> real_of_int a * 2 powr real_of_int (- k)"
      using powr_int_nat [OF nk] by simp
    also have "\<dots> \<longleftrightarrow> real_of_int d * 2 powr real_of_int k \<le> real_of_int a"
      by (simp add: powr_minus field_simps)
    also have "\<dots> \<longleftrightarrow> 2 powr real_of_int k \<le> x"
      using d by (simp add: x_def pos_le_divide_eq mult.commute)
    finally show ?thesis using False by simp
  qed
  have fl: "floor_log2 a d = (if 2 powr real_of_int k \<le> x then k else k - 1)"
    unfolding floor_log2_def Let_def k_def [symmetric] using test by simp
  have up: "x < 2 powr (real_of_int k + 1)"
  proof -
    have "real_of_int a < 2 powr real_of_int (bit_length a)"
      using assms(1) by (rule bit_length_real)
    moreover have "2 powr (real_of_int (bit_length d) - 1) \<le> real_of_int d"
      using assms(2) by (rule bit_length_real)
    ultimately have "x < 2 powr real_of_int (bit_length a) / 2 powr (real_of_int (bit_length d) - 1)"
      unfolding x_def using a d by (intro frac_less) simp_all
    also have "\<dots> = 2 powr (real_of_int (bit_length a) - (real_of_int (bit_length d) - 1))"
      by (simp only: powr_diff)
    also have "real_of_int (bit_length a) - (real_of_int (bit_length d) - 1) = real_of_int k + 1"
      by (simp add: k_def)
    finally show ?thesis .
  qed
  have lo: "2 powr (real_of_int k - 1) \<le> x"
  proof -
    have "2 powr (real_of_int (bit_length a) - 1) \<le> real_of_int a"
      using assms(1) by (rule bit_length_real)
    moreover have "real_of_int d < 2 powr real_of_int (bit_length d)"
      using assms(2) by (rule bit_length_real)
    ultimately have "2 powr (real_of_int (bit_length a) - 1) / 2 powr real_of_int (bit_length d) \<le> x"
      unfolding x_def using a d by (intro frac_le) simp_all
    moreover have "2 powr (real_of_int (bit_length a) - 1) / 2 powr real_of_int (bit_length d)
          = 2 powr (real_of_int (bit_length a) - 1 - real_of_int (bit_length d))"
      by (simp only: powr_diff)
    moreover have "real_of_int (bit_length a) - 1 - real_of_int (bit_length d) = real_of_int k - 1"
      by (simp add: k_def)
    ultimately show ?thesis by simp
  qed
  show "2 powr real_of_int (floor_log2 a d) \<le> real_of_int a / real_of_int d"
    using lo by (simp add: fl x_def [symmetric])
  show "real_of_int a / real_of_int d < 2 powr (real_of_int (floor_log2 a d) + 1)"
    using up by (auto simp: fl x_def [symmetric] not_le)
qed

lemma abs_half: "\<bar>2 * u\<bar> \<le> c \<Longrightarrow> \<bar>u\<bar> \<le> c / 2" for u c :: real
  by (simp add: abs_mult)

lemma f64_mantissa_nearest:
  assumes "0 < d"
  shows "\<bar>real_of_int (f64_mantissa n d e) -
           \<bar>real_of_int n\<bar> / real_of_int d *
             2 powr (real_of_int e - real_of_int (f64_exponent n d e))\<bar> \<le> 1 / 2"
proof -
  define E where "E = f64_exponent n d e"
  define a where "a = \<bar>n\<bar>"
  have d: "0 < real_of_int d" using assms by simp
  have ra: "real_of_int a = \<bar>real_of_int n\<bar>" by (simp add: a_def)
  show ?thesis
  proof (cases "E \<le> e")
    case True
    define k where "k = nat (e - E)"
    define M where "M = round_half_even (a * 2 ^ k) d"
    have m: "f64_mantissa n d e = M"
      using True by (simp add: f64_mantissa_def Let_def E_def [symmetric] a_def k_def M_def)
    have p: "2 powr (real_of_int e - real_of_int E) = 2 ^ k"
      using True powr_int_nat [of "e - E"] by (simp add: k_def)
    have "\<bar>2 * (M * d - a * 2 ^ k)\<bar> \<le> d"
      unfolding M_def using assms by (rule round_half_even_nearest)
    then have "real_of_int \<bar>2 * (M * d - a * 2 ^ k)\<bar> \<le> real_of_int d"
      by (simp only: of_int_le_iff)
    then have "\<bar>2 * (real_of_int M * real_of_int d - real_of_int a * 2 ^ k)\<bar> \<le> real_of_int d"
      by simp
    then have "\<bar>real_of_int M * real_of_int d - real_of_int a * 2 ^ k\<bar> \<le> real_of_int d / 2"
      by (rule abs_half)
    then have A: "\<bar>real_of_int M * real_of_int d - real_of_int a * 2 ^ k\<bar> / real_of_int d \<le> 1 / 2"
      using d by (simp add: field_simps)
    have B: "\<bar>real_of_int M * real_of_int d - real_of_int a * 2 ^ k\<bar> / real_of_int d
        = \<bar>real_of_int M - real_of_int a / real_of_int d * 2 ^ k\<bar>"
    proof -
      have "\<bar>real_of_int M * real_of_int d - real_of_int a * 2 ^ k\<bar> / real_of_int d
          = \<bar>(real_of_int M * real_of_int d - real_of_int a * 2 ^ k) / real_of_int d\<bar>"
        using d by simp
      also have "(real_of_int M * real_of_int d - real_of_int a * 2 ^ k) / real_of_int d
          = real_of_int M - real_of_int a / real_of_int d * 2 ^ k"
        using d by (simp add: field_simps)
      finally show ?thesis .
    qed
    have fin: "\<bar>real_of_int M - real_of_int a / real_of_int d * 2 ^ k\<bar> \<le> 1 / 2"
      using A unfolding B .
    show ?thesis
      unfolding E_def [symmetric] m p ra [symmetric] by (rule fin)
  next
    case False
    define j where "j = nat (E - e)"
    define M where "M = round_half_even a (d * 2 ^ j)"
    have m: "f64_mantissa n d e = M"
      using False by (simp add: f64_mantissa_def Let_def E_def [symmetric] a_def j_def M_def)
    have "2 powr (real_of_int E - real_of_int e) = 2 ^ j"
      using False powr_int_nat [of "E - e"] by (simp add: j_def)
    then have p: "2 powr (real_of_int e - real_of_int E) = 1 / 2 ^ j"
      using powr_minus_divide [of 2 "real_of_int E - real_of_int e"] by simp
    have D: "0 < d * 2 ^ j" using assms by simp
    have rD: "0 < real_of_int d * 2 ^ j" using d by simp
    have "\<bar>2 * (M * (d * 2 ^ j) - a)\<bar> \<le> d * 2 ^ j"
      unfolding M_def using D by (rule round_half_even_nearest)
    then have "real_of_int \<bar>2 * (M * (d * 2 ^ j) - a)\<bar> \<le> real_of_int (d * 2 ^ j)"
      by (simp only: of_int_le_iff)
    then have "\<bar>2 * (real_of_int M * (real_of_int d * 2 ^ j) - real_of_int a)\<bar> \<le> real_of_int d * 2 ^ j"
      by simp
    then have "\<bar>real_of_int M * (real_of_int d * 2 ^ j) - real_of_int a\<bar> \<le> real_of_int d * 2 ^ j / 2"
      by (rule abs_half)
    then have A: "\<bar>real_of_int M * (real_of_int d * 2 ^ j) - real_of_int a\<bar> / (real_of_int d * 2 ^ j) \<le> 1 / 2"
      using rD by (simp add: field_simps)
    have B: "\<bar>real_of_int M * (real_of_int d * 2 ^ j) - real_of_int a\<bar> / (real_of_int d * 2 ^ j)
        = \<bar>real_of_int M - real_of_int a / real_of_int d * (1 / 2 ^ j)\<bar>"
    proof -
      have "\<bar>real_of_int M * (real_of_int d * 2 ^ j) - real_of_int a\<bar> / (real_of_int d * 2 ^ j)
          = \<bar>(real_of_int M * (real_of_int d * 2 ^ j) - real_of_int a) / (real_of_int d * 2 ^ j)\<bar>"
        using rD by simp
      also have "(real_of_int M * (real_of_int d * 2 ^ j) - real_of_int a) / (real_of_int d * 2 ^ j)
          = real_of_int M - real_of_int a / real_of_int d * (1 / 2 ^ j)"
        using d by (simp add: field_simps)
      finally show ?thesis .
    qed
    have fin: "\<bar>real_of_int M - real_of_int a / real_of_int d * (1 / 2 ^ j)\<bar> \<le> 1 / 2"
      using A unfolding B .
    show ?thesis
      unfolding E_def [symmetric] m p ra [symmetric] by (rule fin)
  qed
qed

lemma round_f64_nearest:
  assumes "0 < d" and "round_f64 n d e = F64 M E"
  shows "\<bar>real_of_int M * 2 powr real_of_int E -
           real_of_int n / real_of_int d * 2 powr real_of_int e\<bar> \<le> 2 powr (real_of_int E - 1)"
proof (cases "n = 0")
  case True
  then show ?thesis using assms(2) by (simp add: round_f64_def)
next
  case False
  have ME: "M = sgn n * f64_mantissa n d e" "E = f64_exponent n d e"
    using assms(2) False by (auto simp: round_f64_def Let_def split: if_splits)
  define m where "m = real_of_int (f64_mantissa n d e)"
  define x where "x = \<bar>real_of_int n\<bar> / real_of_int d"
  have h: "\<bar>m - x * 2 powr (real_of_int e - real_of_int E)\<bar> \<le> 1 / 2"
    using f64_mantissa_nearest [OF assms(1), of n e] by (simp add: m_def x_def ME)
  have s: "real_of_int n = real_of_int (sgn n) * \<bar>real_of_int n\<bar>"
    by (simp add: sgn_if)
  have s1: "\<bar>real_of_int (sgn n)\<bar> = 1"
    using False by (simp add: sgn_if)
  have e: "2 powr real_of_int e = 2 powr (real_of_int e - real_of_int E) * 2 powr real_of_int E"
    by (simp add: powr_add [symmetric])
  have "real_of_int M * 2 powr real_of_int E - real_of_int n / real_of_int d * 2 powr real_of_int e
      = real_of_int (sgn n) * (m - x * 2 powr (real_of_int e - real_of_int E)) * 2 powr real_of_int E"
    apply (subst s) apply (subst e)
    by (simp add: ME m_def x_def algebra_simps)
  then have "\<bar>real_of_int M * 2 powr real_of_int E - real_of_int n / real_of_int d * 2 powr real_of_int e\<bar>
      = \<bar>m - x * 2 powr (real_of_int e - real_of_int E)\<bar> * 2 powr real_of_int E"
    by (simp add: abs_mult s1)
  also have "\<dots> \<le> 1 / 2 * 2 powr real_of_int E"
    using h by (intro mult_right_mono) simp_all
  also have "\<dots> = 2 powr (real_of_int E - 1)"
    by (simp add: powr_diff)
  finally show ?thesis .
qed

lemma f64_mantissa_range:
  assumes "0 < d" and "n \<noteq> 0"
  shows "f64_mantissa n d e \<le> 2 ^ 53"
    and "- 1074 < f64_exponent n d e \<Longrightarrow> 2 ^ 52 \<le> f64_mantissa n d e"
proof -
  define L where "L = floor_log2 \<bar>n\<bar> d"
  define E where "E = f64_exponent n d e"
  define x where "x = \<bar>real_of_int n\<bar> / real_of_int d"
  define Q where "Q = x * 2 powr (real_of_int e - real_of_int E)"
  define m where "m = real_of_int (f64_mantissa n d e)"
  have a: "0 < \<bar>n\<bar>" using assms(2) by simp
  have lo: "2 powr real_of_int L \<le> x" and hi: "x < 2 powr (real_of_int L + 1)"
    using floor_log2_correct [OF a assms(1)] by (simp_all add: L_def x_def)
  have x0: "0 < x" using lo powr_gt_zero [of 2 "real_of_int L"] by linarith
  have near: "\<bar>m - Q\<bar> \<le> 1 / 2"
    using f64_mantissa_nearest [OF assms(1), of n e] by (simp add: m_def Q_def x_def E_def)
  have E: "E = max (L + e - 52) (- 1074)"
    by (simp add: E_def f64_exponent_def L_def)
  have "real_of_int e - real_of_int E \<le> 52 - real_of_int L"
    using E by simp
  then have "2 powr (real_of_int e - real_of_int E) \<le> 2 powr (52 - real_of_int L)"
    by simp
  then have "Q \<le> x * 2 powr (52 - real_of_int L)"
    unfolding Q_def using x0 by (intro mult_left_mono) simp_all
  also have "\<dots> < 2 powr (real_of_int L + 1) * 2 powr (52 - real_of_int L)"
    using hi by (intro mult_strict_right_mono) simp_all
  also have "\<dots> = 2 powr 53"
    by (simp add: powr_add [symmetric])
  finally have Q: "Q < 2 ^ 53"
    by simp
  have "m < 2 ^ 53 + 1"
    using near Q by linarith
  then have "real_of_int (f64_mantissa n d e) < real_of_int (2 ^ 53 + 1)"
    by (simp add: m_def)
  then have "f64_mantissa n d e < 2 ^ 53 + 1"
    by (simp only: of_int_less_iff)
  then show "f64_mantissa n d e \<le> 2 ^ 53"
    by simp
  assume "- 1074 < f64_exponent n d e"
  then have "E = L + e - 52"
    using E by (simp add: E_def [symmetric])
  then have "real_of_int e - real_of_int E = 52 - real_of_int L"
    by simp
  then have "Q = x * 2 powr (52 - real_of_int L)"
    by (simp add: Q_def)
  moreover have "2 powr real_of_int L * 2 powr (52 - real_of_int L) \<le> x * 2 powr (52 - real_of_int L)"
    using lo by (intro mult_right_mono) simp_all
  moreover have "2 powr real_of_int L * 2 powr (52 - real_of_int L) = 2 powr 52"
    by (simp add: powr_add [symmetric])
  ultimately have "2 ^ 52 \<le> Q"
    by simp
  then have "2 ^ 52 - 1 < m"
    using near by linarith
  then have "real_of_int (2 ^ 52 - 1) < real_of_int (f64_mantissa n d e)"
    by (simp add: m_def)
  then have "2 ^ 52 - 1 < f64_mantissa n d e"
    by (simp only: of_int_less_iff)
  then show "2 ^ 52 \<le> f64_mantissa n d e"
    by simp
qed

lemma round_f64_range:
  assumes "0 < d" and "round_f64 n d e = F64 M E" and "n \<noteq> 0"
  shows "- 1074 \<le> E \<and> E \<le> 971 \<and> \<bar>M\<bar> \<le> 2 ^ 53 \<and>
         (E = 971 \<longrightarrow> \<bar>M\<bar> < 2 ^ 53) \<and> (- 1074 < E \<longrightarrow> 2 ^ 52 \<le> \<bar>M\<bar>)"
proof -
  have ME: "M = sgn n * f64_mantissa n d e" "E = f64_exponent n d e"
    and no: "\<not> (971 < E \<or> (E = 971 \<and> f64_mantissa n d e = 2 ^ 53))"
    using assms(2,3) by (auto simp: round_f64_def Let_def split: if_splits)
  have m0: "0 \<le> f64_mantissa n d e"
    using assms(1) by (rule f64_mantissa_nonneg)
  have aM: "\<bar>M\<bar> = f64_mantissa n d e"
    using assms(3) m0 by (simp add: ME abs_mult)
  have "- 1074 \<le> E"
    by (simp add: ME f64_exponent_def)
  moreover have "E \<le> 971" using no by simp
  moreover have up: "\<bar>M\<bar> \<le> 2 ^ 53"
    unfolding aM using assms(1,3) by (rule f64_mantissa_range)
  moreover have "E = 971 \<longrightarrow> \<bar>M\<bar> < 2 ^ 53"
    using no up aM by auto
  moreover have "- 1074 < E \<longrightarrow> 2 ^ 52 \<le> \<bar>M\<bar>"
    unfolding aM using f64_mantissa_range(2) [OF assms(1,3), of e] by (simp add: ME)
  ultimately show ?thesis by blast
qed

subsection \<open>The division has no guard\<close>

text \<open>
  Claim C10, as the code has it in float64 arithmetic. The scoring function divides by
  the computed variance of the truth without a guard and raises nothing (the predictions
  are as many as the targets): the score is always one minus the quotient of the two
  computed variances. Whenever the computed variance of the truth is zero, the division
  is by zero and the score is \<open>nan\<close> or \<open>-inf\<close>. Whenever it is a nonzero number and
  the variance of the residuals is a number, the score is a number, or \<open>-inf\<close> when
  the quotient overflows. That a constant vector has computed variance zero is not
  part of the statement: rounding decides it.
\<close>

theorem variance_explained64_unguarded:
  assumes "length (est X) = length y"
  shows "variance_explained64 est X y =
           Inr (fsub (F64 1 0)
                 (fdiv (np_var64 (map (\<lambda>(p, t). fsub p t) (zip (est X) y))) (np_var64 y))) \<and>
         (\<forall>e. np_var64 y = F64 0 e \<longrightarrow>
            variance_explained64 est X y = Inr F64_NaN \<or>
            variance_explained64 est X y = Inr F64_NegInf) \<and>
         (\<forall>m e m' e'. np_var64 y = F64 m e \<and> m \<noteq> 0 \<and>
            np_var64 (map (\<lambda>(p, t). fsub p t) (zip (est X) y)) = F64 m' e' \<longrightarrow>
            variance_explained64 est X y = Inr F64_NegInf \<or>
            (\<exists>ms es. variance_explained64 est X y = Inr (F64 ms es)))"
proof -
  let ?rv = "np_var64 (map (\<lambda>(p, t). fsub p t) (zip (est X) y))"
  have 1: "variance_explained64 est X y = Inr (fsub (F64 1 0) (fdiv ?rv (np_var64 y)))"
    using assms by (simp add: variance_explained64_def np_subtract64_def)
  have rv: "nonneg64 ?rv" by (rule np_var64_nonneg)
  have 2: "variance_explained64 est X y = Inr F64_NaN \<or>
           variance_explained64 est X y = Inr F64_NegInf"
    if "np_var64 y = F64 0 e" for e
    using rv by (cases ?rv) (simp_all add: 1 that fsub_one_special)
  have 3: "variance_explained64 est X y = Inr F64_NegInf \<or>
           (\<exists>ms es. variance_explained64 est X y = Inr (F64 ms es))"
    if vy: "np_var64 y = F64 m e" and nz: "m \<noteq> 0" and vd: "?rv = F64 m' e'" for m e m' e'
  proof -
    have m: "0 < m" using np_var64_nonneg [of y] vy nz by simp
    have m': "0 \<le> m'" using rv vd by simp
    let ?q = "round_f64 (sgn m * m') \<bar>m\<bar> (e' - e)"
    have q: "fdiv ?rv (np_var64 y) = ?q" using nz by (simp add: vy vd)
    have qn: "nonneg64 ?q" using m m' by (intro round_f64_nonneg) simp_all
    show ?thesis
    proof (cases ?q)
      case (F64 mq eq)
      then have "0 \<le> mq" using qn by simp
      from fsub_one_finite [OF this, of eq] show ?thesis
        by (auto simp: 1 q F64)
    next
      case F64_PosInf
      then show ?thesis by (simp add: 1 q fsub_one_special)
    next
      case F64_NegInf
      then show ?thesis using qn by simp
    next
      case F64_NaN
      then show ?thesis using round_f64_not_nan by blast
    qed
  qed
  show ?thesis using 1 2 3 by blast
qed

theorem variance_explained64_unguarded_witness:
  "length (id [F64 1 0, F64 2 0, F64 4 0]) = length [F64 2 0, F64 2 0, F64 2 0] \<and>
   np_var64 [F64 2 0, F64 2 0, F64 2 0] = F64 0 0 \<and>
   (variance_explained64 id [F64 1 0, F64 2 0, F64 4 0] [F64 2 0, F64 2 0, F64 2 0] = Inr F64_NaN \<or>
    variance_explained64 id [F64 1 0, F64 2 0, F64 4 0] [F64 2 0, F64 2 0, F64 2 0] = Inr F64_NegInf) \<and>
   length (id [F64 1 0, F64 2 0, F64 4 0]) = length [F64 1 0, F64 2 0, F64 3 0] \<and>
   np_var64 [F64 1 0, F64 2 0, F64 3 0] = F64 6004799503160661 (- 53) \<and>
   np_var64 (map (\<lambda>(p, t). fsub p t)
      (zip (id [F64 1 0, F64 2 0, F64 4 0]) [F64 1 0, F64 2 0, F64 3 0])) =
     F64 8006399337547549 (- 55) \<and>
   (variance_explained64 id [F64 1 0, F64 2 0, F64 4 0] [F64 1 0, F64 2 0, F64 3 0] = Inr F64_NegInf \<or>
    (\<exists>ms es. variance_explained64 id [F64 1 0, F64 2 0, F64 4 0] [F64 1 0, F64 2 0, F64 3 0] =
       Inr (F64 ms es))) \<and>
   variance_explained64 id [F64 1 0, F64 2 0, F64 4 0] [F64 1 0, F64 2 0, F64 3 0] =
     Inr (F64 6004799503160661 (- 53))"
proof -
  let ?p = "[F64 1 0, F64 2 0, F64 4 0]"
  let ?y0 = "[F64 2 0, F64 2 0, F64 2 0]"
  let ?y1 = "[F64 1 0, F64 2 0, F64 3 0]"
  have l0: "length (id ?p) = length ?y0" and l1: "length (id ?p) = length ?y1"
    by simp_all
  have v0: "np_var64 ?y0 = F64 0 0"
    by code_simp
  have v1: "np_var64 ?y1 = F64 6004799503160661 (- 53)"
    by code_simp
  have r1: "np_var64 (map (\<lambda>(p, t). fsub p t) (zip (id ?p) ?y1)) = F64 8006399337547549 (- 55)"
    by code_simp
  have s1: "variance_explained64 id ?p ?y1 = Inr (F64 6004799503160661 (- 53))"
    by code_simp
  have a: "variance_explained64 id ?p ?y0 = Inr F64_NaN \<or>
           variance_explained64 id ?p ?y0 = Inr F64_NegInf"
    using variance_explained64_unguarded [of id ?p ?y0] l0 v0 by blast
  have nz: "(6004799503160661 :: int) \<noteq> 0" by simp
  have b: "variance_explained64 id ?p ?y1 = Inr F64_NegInf \<or>
           (\<exists>ms es. variance_explained64 id ?p ?y1 = Inr (F64 ms es))"
    using variance_explained64_unguarded [of id ?p ?y1] l1 v1 r1 nz by blast
  show ?thesis
    by (intro conjI l0 l1 v0 v1 r1 s1 a b)
qed

text \<open>
  Claim C10 as it was written fails in both halves. The constant vector of three times
  the double 0.1 has the computed variance \<open>2 ^ (- 112)\<close> (its computed mean is the next
  double above 0.1), so nothing is divided by zero, and a predictor that returns the
  target scores 1. The target \<open>[1, 2]\<close> has the nonzero variance 0.25, and with the
  predictions \<open>2 ^ 600\<close> and \<open>- 2 ^ 600\<close> the squares of the residuals overflow and the
  score is \<open>-inf\<close>. The estimator is the identity and the features are its predictions.
\<close>

theorem variance_explained64_counterexample:
  "np_var64 [F64 3602879701896397 (- 55), F64 3602879701896397 (- 55),
             F64 3602879701896397 (- 55)] = F64 4503599627370496 (- 164) \<and>
   variance_explained64 id
     [F64 3602879701896397 (- 55), F64 3602879701896397 (- 55), F64 3602879701896397 (- 55)]
     [F64 3602879701896397 (- 55), F64 3602879701896397 (- 55), F64 3602879701896397 (- 55)] =
     Inr (F64 4503599627370496 (- 52)) \<and>
   np_var64 [F64 1 0, F64 2 0] = F64 4503599627370496 (- 54) \<and>
   variance_explained64 id [F64 1 600, F64 (- 1) 600] [F64 1 0, F64 2 0] = Inr F64_NegInf"
  by code_simp

end
